theory Spec2Isabelle
  imports Main
begin

section \<open>The AIFunc manager of GhostOS (ghostos/core/aifunc/manager.py)\<close>

text \<open>
  The development follows \<^verbatim>\<open>DefaultAIFuncManagerImpl\<close>. Python objects that the
  manager mutates are passed as explicit state and returned updated; every
  \<^verbatim>\<open>raise\<close> is a value \<open>Inl e\<close> of a sum type; a call that does not return is the value
  \<open>None\<close> of an option type.
\<close>

subsection \<open>Values, errors and collaborators\<close>

type_synonym cls = string
type_synonym key = string
type_synonym addr = nat
type_synonym stream = nat
type_synonym thread = "string list"

text \<open>
  Python values a driver may hand back as a result: \<^verbatim>\<open>None\<close>, an instance of a subclass
  of \<^verbatim>\<open>AIFuncResult\<close> (with the name of its class), or an object of any other class.
\<close>

datatype pyobj = PyNone | AIFuncResultObj cls int | OtherObj cls int

fun isinstance_AIFuncResult :: "pyobj \<Rightarrow> bool" where
  "isinstance_AIFuncResult (AIFuncResultObj c v) = True"
| "isinstance_AIFuncResult PyNone = False"
| "isinstance_AIFuncResult (OtherObj c v) = False"

fun type_of :: "pyobj \<Rightarrow> cls" where
  "type_of PyNone = ''NoneType''"
| "type_of (AIFuncResultObj c v) = c"
| "type_of (OtherObj c v) = c"

text \<open>
  The exceptions of manager.py. The three \<^verbatim>\<open>RuntimeError\<close>s are told apart by their
  message and carry the values the message prints; \<open>AttributeError\<close> is what Python raises
  on reading or deleting an attribute removed by \<^verbatim>\<open>del\<close>; \<open>ValueError\<close> is what
  \<^verbatim>\<open>ThreadPoolExecutor(max_workers=0)\<close> raises; \<open>DriverError\<close> is any exception of a
  driver's own.
\<close>

datatype error =
    RecursionLimitExceeded int int
  | StepLimitExceeded int
  | ResultTypeMismatch cls cls
  | AttributeError string
  | ValueError string
  | DriverError string

text \<open>An attribute of an object: present with a value, or removed by \<^verbatim>\<open>del\<close>.\<close>

datatype 'a attr = Deleted | Attr 'a

text \<open>
  Modelled from the spec: the resource scope (\<^verbatim>\<open>ghostos.container.Container\<close>), which is
  not part of the sources at hand. A scope is an object with an address; the only operation the
  manager performs on it is \<^verbatim>\<open>destroy()\<close>, "safe to call multiple times". The state
  of all scopes records how often each one has been torn down; a scope is valid as long as it
  never was.
\<close>

type_synonym scopes = "addr \<Rightarrow> nat"

definition container_destroy :: "addr \<Rightarrow> scopes \<Rightarrow> scopes" where
  "container_destroy a w = w(a := Suc (w a))"

definition scope_valid :: "scopes \<Rightarrow> addr \<Rightarrow> bool" where
  "scope_valid w a = (w a = 0)"

text \<open>
  Modelled from the spec: \<^verbatim>\<open>ExecFrame\<close> and \<^verbatim>\<open>ExecStep\<close>
  (\<^verbatim>\<open>ghostos.core.aifunc.interfaces\<close>, not part of the sources at hand). A frame has
  a depth, the identity of its task and the steps created for it so far; a step has the depth of its
  frame and a 1-based sequence number. \<open>new_step\<close> returns "the next sequentially numbered
  step for that frame" and records it in the frame; \<open>new_frame\<close> returns a frame "one level
  deeper"; \<open>from_func\<close> is the root frame, of depth 0. The unique identifiers are left out:
  the manager never reads them.
\<close>

record exec_step =
  step_func :: cls
  step_depth :: int
  seq :: nat

record exec_frame =
  frame_func :: cls
  frame_depth :: int
  steps :: "exec_step list"

text \<open>A task (\<^verbatim>\<open>AIFunc\<close>): its class, the driver its class declares
  (\<^verbatim>\<open>__aifunc_driver__\<close>, possibly \<^verbatim>\<open>None\<close>), its declared result type
  (\<^verbatim>\<open>get_aifunc_result_type\<close>) and its arguments.\<close>

record aifunc =
  func_cls :: cls
  aifunc_driver :: "cls option"
  aifunc_result_type :: cls
  args :: int

definition from_func :: "aifunc \<Rightarrow> exec_frame" where
  "from_func fn = \<lparr>frame_func = func_cls fn, frame_depth = 0, steps = []\<rparr>"

definition new_step :: "exec_frame \<Rightarrow> exec_step \<times> exec_frame" where
  "new_step frame =
     (let step = \<lparr>step_func = frame_func frame, step_depth = frame_depth frame,
                  seq = length (steps frame) + 1\<rparr>
      in (step, frame\<lparr>steps := steps frame @ [step]\<rparr>))"

definition new_frame :: "exec_step \<Rightarrow> aifunc \<Rightarrow> exec_frame" where
  "new_frame step fn = \<lparr>frame_func = func_cls fn, frame_depth = step_depth step + 1, steps = []\<rparr>"

subsection \<open>The manager object\<close>

text \<open>
  The attributes set by \<^verbatim>\<open>__init__\<close>. The four that \<^verbatim>\<open>destroy\<close> deletes are
  \<open>attr\<close>s. A driver class is referred to by its name.
\<close>

record manager =
  container :: "addr attr"
  exec_step :: "exec_step option attr"
  upstream :: "stream option attr"
  llm_api_name :: string
  values_dict :: "(key \<rightharpoonup> pyobj) attr"
  max_depth :: int
  max_step :: int
  default_driver_type :: cls
  destroyed :: bool

definition DefaultAIFuncDriverImpl :: cls where
  "DefaultAIFuncDriverImpl = ''DefaultAIFuncDriverImpl''"

text \<open>\<^verbatim>\<open>__init__\<close>: raises when the step's depth exceeds the maximum depth.\<close>

definition init_manager ::
  "addr \<Rightarrow> exec_step option \<Rightarrow> stream option \<Rightarrow> cls option \<Rightarrow> string \<Rightarrow> int \<Rightarrow> int
   \<Rightarrow> error + manager" where
  "init_manager con step up default_driver api_name maxd maxs =
     (if (case step of None \<Rightarrow> False | Some s \<Rightarrow> step_depth s > maxd)
      then Inl (RecursionLimitExceeded (step_depth (the step)) maxd)
      else Inr \<lparr>container = Attr con, exec_step = Attr step, upstream = Attr up,
                llm_api_name = api_name, values_dict = Attr Map.empty,
                max_depth = maxd, max_step = maxs,
                default_driver_type =
                  (case default_driver of Some d \<Rightarrow> d | None \<Rightarrow> DefaultAIFuncDriverImpl),
                destroyed = False\<rparr>)"

text \<open>\<^verbatim>\<open>sub_manager\<close>: the child is constructed with the caller's own container
  object, its default driver, model name and maximum depth; \<^verbatim>\<open>max_step\<close> is not passed on
  and takes its default, 10.\<close>

definition sub_manager :: "manager \<Rightarrow> exec_step \<Rightarrow> stream option \<Rightarrow> error + manager" where
  "sub_manager self step up =
     (case container self of
        Deleted \<Rightarrow> Inl (AttributeError ''_container'')
      | Attr con \<Rightarrow>
          init_manager con (Some step) up (Some (default_driver_type self))
            (llm_api_name self) (max_depth self) 10)"

text \<open>\<^verbatim>\<open>_sub_manager_fn\<close>: the maker that \<^verbatim>\<open>compiler\<close> registers for
  \<^verbatim>\<open>AIFuncCtx\<close> in the container of the step's compiler. The context that the code of a step
  works with is a sub manager of the executing manager, bound to that step.\<close>

definition sub_manager_fn :: "manager \<Rightarrow> exec_step \<Rightarrow> stream option \<Rightarrow> error + manager" where
  "sub_manager_fn self step up = sub_manager self step up"


definition set_key :: "manager \<Rightarrow> key \<Rightarrow> pyobj \<Rightarrow> (error + unit) \<times> manager" where
  "set_key self k v =
     (case values_dict self of
        Deleted \<Rightarrow> (Inl (AttributeError ''_values''), self)
      | Attr vs \<Rightarrow> (Inr (), self\<lparr>values_dict := Attr (vs(k \<mapsto> v))\<rparr>))"

text \<open>
  \<^verbatim>\<open>destroy\<close>: returns at once when \<^verbatim>\<open>_destroyed\<close> is set; otherwise destroys the
  container and deletes four attributes, one after the other. No statement assigns
  \<^verbatim>\<open>_destroyed\<close> after \<^verbatim>\<open>__init__\<close>.
\<close>

definition destroy :: "manager \<Rightarrow> scopes \<Rightarrow> (error + unit) \<times> manager \<times> scopes" where
  "destroy self w =
     (if destroyed self then (Inr (), self, w)
      else case container self of
        Deleted \<Rightarrow> (Inl (AttributeError ''_container''), self, w)
      | Attr con \<Rightarrow>
          let w1 = container_destroy con w;
              s1 = self\<lparr>container := Deleted\<rparr>
          in case values_dict s1 of
               Deleted \<Rightarrow> (Inl (AttributeError ''_values''), s1, w1)
             | Attr vs \<Rightarrow>
                 let s2 = s1\<lparr>values_dict := Deleted\<rparr>
                 in case exec_step s2 of
                      Deleted \<Rightarrow> (Inl (AttributeError ''_exec_step''), s2, w1)
                    | Attr st \<Rightarrow>
                        let s3 = s2\<lparr>exec_step := Deleted\<rparr>
                        in case upstream s3 of
                             Deleted \<Rightarrow> (Inl (AttributeError ''_upstream''), s3, w1)
                           | Attr u \<Rightarrow> (Inr (), s3\<lparr>upstream := Deleted\<rparr>, w1))"

subsection \<open>Drivers\<close>

text \<open>
  Modelled from the spec: the driver (\<^verbatim>\<open>AIFuncDriver\<close>, not part of the sources at
  hand). \<open>initialize\<close> gives the first conversation state. \<open>think\<close> receives the manager, the
  state, the step and the upstream; it returns the new state, a result (possibly
  \<^verbatim>\<open>None\<close>) and the completion flag, or raises, and it may change the manager it was given
  and the resource scopes on the way. A call of \<open>think\<close> that does not return is \<open>None\<close>.
  A class table maps the name of a driver class to its constructor.
\<close>

type_synonym think_result = "(error + thread \<times> pyobj \<times> bool) \<times> manager \<times> scopes"

record driver =
  initialize :: thread
  think :: "manager \<Rightarrow> thread \<Rightarrow> exec_step \<Rightarrow> stream option \<Rightarrow> scopes \<Rightarrow> think_result option"

type_synonym ctab = "cls \<Rightarrow> aifunc \<Rightarrow> driver"

text \<open>\<^verbatim>\<open>get_driver\<close>: the driver class the task's class declares, else the manager's
  default, instantiated for the task.\<close>

definition get_driver :: "ctab \<Rightarrow> manager \<Rightarrow> aifunc \<Rightarrow> driver" where
  "get_driver C self fn =
     (case aifunc_driver fn of
        Some d \<Rightarrow> C d fn
      | None \<Rightarrow> C (default_driver_type self) fn)"

subsection \<open>execute\<close>

text \<open>
  The \<^verbatim>\<open>while not finished\<close> loop of \<^verbatim>\<open>execute\<close>. Its state is the local counter
  \<open>step\<close>, the frame, the conversation state, the manager and the scopes. Each round
  increments the counter, creates the step of the round, checks the limit, and calls \<open>think\<close>.
  Besides the outcome (an exception, or the result of the last \<open>think\<close>) the loop returns the
  manager, the frame and the scopes as it leaves them, and the number of calls of \<open>think\<close>
  it has made (\<open>calls\<close> counts them and has no counterpart in the source).
\<close>

type_synonym loop_result = "(error + pyobj) \<times> manager \<times> exec_frame \<times> scopes \<times> nat"

partial_function (option) think_loop ::
  "driver \<Rightarrow> stream option \<Rightarrow> int \<Rightarrow> exec_frame \<Rightarrow> thread \<Rightarrow> manager \<Rightarrow> scopes \<Rightarrow> nat
   \<Rightarrow> loop_result option" where
  "think_loop drv up step frame thread self w calls =
     (let step' = step + 1;
          es = new_step frame
      in if max_step self \<noteq> 0 \<and> step' > max_step self
         then Some (Inl (StepLimitExceeded (max_step self)), self, snd es, w, calls)
         else case think drv self thread (fst es) up w of
                None \<Rightarrow> None
              | Some (Inl e, self', w') \<Rightarrow> Some (Inl e, self', snd es, w', Suc calls)
              | Some (Inr (thread', result, finished), self', w') \<Rightarrow>
                  if finished then Some (Inr result, self', snd es, w', Suc calls)
                  else think_loop drv up step' (snd es) thread' self' w' (Suc calls))"

text \<open>
  \<^verbatim>\<open>execute\<close>: the root frame when none is given, the driver, the loop, and the check of
  the result: a result that is neither \<^verbatim>\<open>None\<close> nor an instance of \<^verbatim>\<open>AIFuncResult\<close>
  raises; the declared result type of the task is only printed in the message.
\<close>

definition execute ::
  "ctab \<Rightarrow> manager \<Rightarrow> aifunc \<Rightarrow> exec_frame option \<Rightarrow> stream option \<Rightarrow> scopes
   \<Rightarrow> loop_result option" where
  "execute C self fn frame up w =
     (let frame' = (case frame of None \<Rightarrow> from_func fn | Some f \<Rightarrow> f);
          drv = get_driver C self fn
      in case think_loop drv up 0 frame' (initialize drv) self w 0 of
           None \<Rightarrow> None
         | Some (Inl e, rest) \<Rightarrow> Some (Inl e, rest)
         | Some (Inr result, rest) \<Rightarrow>
             if result \<noteq> PyNone \<and> \<not> isinstance_AIFuncResult result
             then Some (Inl (ResultTypeMismatch (type_of result) (aifunc_result_type fn)), rest)
             else Some (Inr result, rest))"

subsection \<open>run and parallel_run\<close>

text \<open>
  What a call of \<^verbatim>\<open>run\<close> leaves behind: its outcome, the calling manager, the local
  variables \<^verbatim>\<open>sub_manager\<close> and \<^verbatim>\<open>frame\<close> (absent when \<^verbatim>\<open>run\<close>
  raised before it assigned them) as they are when \<^verbatim>\<open>run\<close> returns, and the scopes.
\<close>

record run_result =
  r_outcome :: "error + pyobj"
  r_caller :: manager
  r_sub :: "manager option"
  r_frame :: "exec_frame option"
  r_scopes :: scopes

text \<open>
  \<^verbatim>\<open>run\<close>: the frame (below the manager's own step, or a root frame), the first step of
  that frame, the sub manager; then, in \<^verbatim>\<open>try\<close>, \<^verbatim>\<open>execute\<close> and the assignment of
  the result to the key; in \<^verbatim>\<open>finally\<close>, the destruction of the sub manager, whose own
  exception, if any, replaces the outcome of the \<^verbatim>\<open>try\<close> block.
\<close>

definition run_finally ::
  "error + pyobj \<Rightarrow> manager \<Rightarrow> manager \<Rightarrow> exec_frame \<Rightarrow> scopes \<Rightarrow> run_result" where
  "run_finally tried self sub_m fr w =
     (case destroy sub_m w of
        (Inl e, sub_m', w') \<Rightarrow>
          \<lparr>r_outcome = Inl e, r_caller = self, r_sub = Some sub_m', r_frame = Some fr, r_scopes = w'\<rparr>
      | (Inr u, sub_m', w') \<Rightarrow>
          \<lparr>r_outcome = tried, r_caller = self, r_sub = Some sub_m', r_frame = Some fr, r_scopes = w'\<rparr>)"

definition run :: "ctab \<Rightarrow> manager \<Rightarrow> key \<Rightarrow> aifunc \<Rightarrow> scopes \<Rightarrow> run_result option" where
  "run C self k fn w =
     (case exec_step self of
        Deleted \<Rightarrow>
          Some \<lparr>r_outcome = Inl (AttributeError ''_exec_step''), r_caller = self, r_sub = None,
                r_frame = None, r_scopes = w\<rparr>
      | Attr st \<Rightarrow>
          let frame0 = (case st of Some s \<Rightarrow> new_frame s fn | None \<Rightarrow> from_func fn);
              sf = new_step frame0
          in case sub_manager self (fst sf) None of
               Inl e \<Rightarrow>
                 Some \<lparr>r_outcome = Inl e, r_caller = self, r_sub = None, r_frame = Some (snd sf),
                       r_scopes = w\<rparr>
             | Inr sub_m \<Rightarrow>
                 (case upstream self of
                    Deleted \<Rightarrow>
                      Some (run_finally (Inl (AttributeError ''_upstream'')) self sub_m (snd sf) w)
                  | Attr up \<Rightarrow>
                      (case execute C sub_m fn (Some (snd sf)) up w of
                         None \<Rightarrow> None
                       | Some (Inl e, sub_m', fr, w', n) \<Rightarrow>
                           Some (run_finally (Inl e) self sub_m' fr w')
                       | Some (Inr result, sub_m', fr, w', n) \<Rightarrow>
                           (case values_dict self of
                              Deleted \<Rightarrow>
                                Some (run_finally (Inl (AttributeError ''_values'')) self
                                        sub_m' fr w')
                            | Attr vs \<Rightarrow>
                                Some (run_finally (Inr result)
                                        (self\<lparr>values_dict := Attr (vs(k \<mapsto> result))\<rparr>)
                                        sub_m' fr w')))))"





text \<open>A frame is numbered when its steps carry the sequence numbers 1, 2, ... in the order of
  their creation, as the steps made by \<open>new_step\<close> do.\<close>

definition numbered :: "exec_frame \<Rightarrow> bool" where
  "numbered fr = (map seq (steps fr) = [1..<Suc (length (steps fr))])"

subsection \<open>Concrete inputs\<close>

text \<open>
  The managers, tasks and drivers at which the theorems below are evaluated: the manager that
  \<^verbatim>\<open>DefaultAIFuncManagerImpl(container=con, max_depth=d, max_step=s)\<close> constructs for the
  container at address 0, a state of the scopes in which none has been destroyed, a task, a driver
  that never finishes and one that finishes in its first round with a given result.
\<close>

definition mk_root :: "int \<Rightarrow> int \<Rightarrow> manager" where
  "mk_root maxd maxs =
     \<lparr>container = Attr 0, exec_step = Attr None, upstream = Attr None, llm_api_name = [],
      values_dict = Attr Map.empty, max_depth = maxd, max_step = maxs,
      default_driver_type = DefaultAIFuncDriverImpl, destroyed = False\<rparr>"

definition no_scope_destroyed :: scopes where
  "no_scope_destroyed = (\<lambda>a. 0)"

definition fn0 :: aifunc where
  "fn0 = \<lparr>func_cls = ''F'', aifunc_driver = None, aifunc_result_type = ''FResult'', args = 0\<rparr>"

definition idle_driver :: driver where
  "idle_driver =
     \<lparr>initialize = [],
      think = (\<lambda>self thread step up w. Some (Inr (thread, PyNone, False), self, w))\<rparr>"

definition finish_driver :: "pyobj \<Rightarrow> driver" where
  "finish_driver r =
     \<lparr>initialize = [],
      think = (\<lambda>self thread step up w. Some (Inr (thread, r, True), self, w))\<rparr>"

definition idle_tab :: ctab where
  "idle_tab = (\<lambda>c fn. idle_driver)"

definition finish_tab :: "pyobj \<Rightarrow> ctab" where
  "finish_tab r = (\<lambda>c fn. finish_driver r)"




text \<open>
  Modelled from the spec: the driver of a task that launches itself (the driver that runs the
  code of a task is not part of the sources at hand). \<open>nested_tab n r\<close> is the class table
  under which the task launches itself \<open>n\<close> more times, one inside the other: in its first
  round it takes the context of the step, calls \<^verbatim>\<open>run\<close> on it with the task itself, and
  finishes with the result of that call; the innermost launch finishes with \<open>r\<close>.
\<close>

primrec nested_tab :: "nat \<Rightarrow> pyobj \<Rightarrow> ctab" where
  "nested_tab 0 r = (\<lambda>c fn. finish_driver r)"
| "nested_tab (Suc n) r = (\<lambda>c fn.
     \<lparr>initialize = [],
      think = (\<lambda>self thread step up w.
        case sub_manager_fn self step up of
          Inl e \<Rightarrow> Some (Inl e, self, w)
        | Inr ctx \<Rightarrow>
            (case run (nested_tab n r) ctx ''nested'' fn w of
               None \<Rightarrow> None
             | Some res \<Rightarrow>
                 (case r_outcome res of
                    Inl e \<Rightarrow> Some (Inl e, self, r_scopes res)
                  | Inr v \<Rightarrow> Some (Inr (thread, v, True), self, r_scopes res))))\<rparr>)"

text \<open>
  Modelled from the spec: the driver of a task that launches itself on the manager it is handed
  (\<^verbatim>\<open>context()\<close> returns the manager itself). \<open>direct_tab n r\<close> is as
  \<open>nested_tab n r\<close>, but each launch calls \<^verbatim>\<open>run\<close> on the manager that \<open>think\<close>
  receives instead of on the context of the step, and hands back that manager as
  \<^verbatim>\<open>run\<close> leaves it.
\<close>

primrec direct_tab :: "nat \<Rightarrow> pyobj \<Rightarrow> ctab" where
  "direct_tab 0 r = (\<lambda>c fn. finish_driver r)"
| "direct_tab (Suc n) r = (\<lambda>c fn.
     \<lparr>initialize = [],
      think = (\<lambda>self thread step up w.
        case run (direct_tab n r) self ''nested'' fn w of
          None \<Rightarrow> None
        | Some res \<Rightarrow>
            (case r_outcome res of
               Inl e \<Rightarrow> Some (Inl e, r_caller res, r_scopes res)
             | Inr v \<Rightarrow> Some (Inr (thread, v, True), r_caller res, r_scopes res)))\<rparr>)"

section \<open>Properties\<close>

subsection \<open>The loop of execute\<close>

lemma think_loop_limit:
  "max_step self \<noteq> 0 \<Longrightarrow> step + 1 > max_step self \<Longrightarrow>
   think_loop drv up step frame thread self w calls =
     Some (Inl (StepLimitExceeded (max_step self)), self, snd (new_step frame), w, calls)"
  by (subst think_loop.simps) (simp add: Let_def)

lemma think_loop_call:
  "max_step self = 0 \<or> step + 1 \<le> max_step self \<Longrightarrow>
   think_loop drv up step frame thread self w calls =
     (case think drv self thread (fst (new_step frame)) up w of
        None \<Rightarrow> None
      | Some (Inl e, self', w') \<Rightarrow> Some (Inl e, self', snd (new_step frame), w', Suc calls)
      | Some (Inr (thread', result, finished), self', w') \<Rightarrow>
          if finished then Some (Inr result, self', snd (new_step frame), w', Suc calls)
          else think_loop drv up (step + 1) (snd (new_step frame)) thread' self' w' (Suc calls))"
  by (subst think_loop.simps) (auto simp: Let_def)

text \<open>A proof rule for the loop when it returns: an invariant of its state, and what holds at
  each of its three exits.\<close>

lemma think_loop_rule:
  assumes some: "think_loop drv up step frame thread self w calls = Some y"
    and init: "I step frame thread self w calls"
    and limit: "\<And>step frame thread self w calls.
        I step frame thread self w calls \<Longrightarrow> max_step self \<noteq> 0 \<Longrightarrow> max_step self < step + 1 \<Longrightarrow>
        Q (Inl (StepLimitExceeded (max_step self)), self, snd (new_step frame), w, calls)"
    and raised: "\<And>step frame thread self w calls e self' w'.
        I step frame thread self w calls \<Longrightarrow> max_step self = 0 \<or> step + 1 \<le> max_step self \<Longrightarrow>
        think drv self thread (fst (new_step frame)) up w = Some (Inl e, self', w') \<Longrightarrow>
        Q (Inl e, self', snd (new_step frame), w', Suc calls)"
    and finished: "\<And>step frame thread self w calls thread' r self' w'.
        I step frame thread self w calls \<Longrightarrow> max_step self = 0 \<or> step + 1 \<le> max_step self \<Longrightarrow>
        think drv self thread (fst (new_step frame)) up w = Some (Inr (thread', r, True), self', w') \<Longrightarrow>
        Q (Inr r, self', snd (new_step frame), w', Suc calls)"
    and continue: "\<And>step frame thread self w calls thread' r self' w'.
        I step frame thread self w calls \<Longrightarrow> max_step self = 0 \<or> step + 1 \<le> max_step self \<Longrightarrow>
        think drv self thread (fst (new_step frame)) up w = Some (Inr (thread', r, False), self', w') \<Longrightarrow>
        I (step + 1) (snd (new_step frame)) thread' self' w' (Suc calls)"
  shows "Q y"
proof -
  have "drv = drv \<and> up = up \<and> I step frame thread self w calls \<longrightarrow> Q y"
  proof (rule think_loop.raw_induct
      [where P = "\<lambda>d u step frame thread self w calls y.
          d = drv \<and> u = up \<and> I step frame thread self w calls \<longrightarrow> Q y", OF _ some])
    fix loop d u step frame thread self w calls y
    assume IH: "\<And>d u step frame thread self w calls y.
        loop d u step frame thread self w calls = Some y \<Longrightarrow>
        d = drv \<and> u = up \<and> I step frame thread self w calls \<longrightarrow> Q y"
      and body: "(let step' = step + 1; es = new_step frame
          in if max_step self \<noteq> 0 \<and> max_step self < step'
             then Some (Inl (StepLimitExceeded (max_step self)), self, snd es, w, calls)
             else case think d self thread (fst es) u w of
                    None \<Rightarrow> None
                  | Some (Inl e, self', w') \<Rightarrow> Some (Inl e, self', snd es, w', Suc calls)
                  | Some (Inr (thread', result, finished), self', w') \<Rightarrow>
                      if finished then Some (Inr result, self', snd es, w', Suc calls)
                      else loop d u step' (snd es) thread' self' w' (Suc calls)) = Some y"
    show "d = drv \<and> u = up \<and> I step frame thread self w calls \<longrightarrow> Q y"
    proof (intro impI, elim conjE)
      assume d: "d = drv" and u: "u = up" and inv: "I step frame thread self w calls"
      show "Q y"
      proof (cases "max_step self \<noteq> 0 \<and> max_step self < step + 1")
        case True
        with body have "y = (Inl (StepLimitExceeded (max_step self)), self, snd (new_step frame), w, calls)"
          by (simp add: Let_def)
        with limit[OF inv] True show ?thesis by simp
      next
        case False
        then have ok: "max_step self = 0 \<or> step + 1 \<le> max_step self" by auto
        from body False d u have body':
          "(case think drv self thread (fst (new_step frame)) up w of
              None \<Rightarrow> None
            | Some (Inl e, self', w') \<Rightarrow> Some (Inl e, self', snd (new_step frame), w', Suc calls)
            | Some (Inr (thread', result, finished), self', w') \<Rightarrow>
                if finished then Some (Inr result, self', snd (new_step frame), w', Suc calls)
                else loop drv up (step + 1) (snd (new_step frame)) thread' self' w' (Suc calls))
           = Some y"
          by (auto simp: Let_def split: if_splits)
        show ?thesis
        proof (cases "think drv self thread (fst (new_step frame)) up w")
          case None
          with body' show ?thesis by simp
        next
          case (Some t)
          obtain o' self' w' where t: "t = (o', self', w')" by (cases t)
          show ?thesis
          proof (cases o')
            case (Inl e)
            with body' Some t
            have "y = (Inl e, self', snd (new_step frame), w', Suc calls)" by simp
            with raised[OF inv ok] Some t Inl show ?thesis by simp
          next
            case (Inr v)
            obtain thread' r fin where v: "v = (thread', r, fin)" by (cases v)
            show ?thesis
            proof (cases fin)
              case True
              with body' Some t Inr v
              have "y = (Inr r, self', snd (new_step frame), w', Suc calls)" by simp
              with finished[OF inv ok] Some t Inr v True show ?thesis by simp
            next
              case F: False
              with body' Some t Inr v
              have "loop drv up (step + 1) (snd (new_step frame)) thread' self' w' (Suc calls) = Some y"
                by simp
              moreover have "I (step + 1) (snd (new_step frame)) thread' self' w' (Suc calls)"
                using continue[OF inv ok] Some t Inr v F by simp
              ultimately show ?thesis using IH by blast
            qed
          qed
        qed
      qed
    qed
  qed
  with init show ?thesis by simp
qed

lemma mk_root_init: "init_manager 0 None None None [] maxd maxs = Inr (mk_root maxd maxs)"
  by (simp add: init_manager_def mk_root_def)

lemma think_loop_exhausts:
  assumes nf: "\<And>s th st u v. \<exists>th' r s' v'.
      think drv s th st u v = Some (Inr (th', r, False), s', v') \<and> max_step s' = max_step s"
  shows "step \<le> max_step self \<Longrightarrow> 1 \<le> max_step self \<Longrightarrow> n = nat (max_step self - step) \<Longrightarrow>
     \<exists>self' fr w'. think_loop drv up step frame thread self w calls =
        Some (Inl (StepLimitExceeded (max_step self)), self', fr, w', calls + n)"
proof (induction n arbitrary: step frame thread self w calls)
  case 0
  then have "step = max_step self" by simp
  then show ?case using 0 by (simp add: think_loop_limit)
next
  case (Suc n)
  then have lt: "step + 1 \<le> max_step self" by simp
  obtain th' r s' v' where
    t: "think drv self thread (fst (new_step frame)) up w = Some (Inr (th', r, False), s', v')"
    and ms: "max_step s' = max_step self" using nf by blast
  have "\<exists>self' fr w'. think_loop drv up (step + 1) (snd (new_step frame)) th' s' v' (Suc calls) =
        Some (Inl (StepLimitExceeded (max_step s')), self', fr, w', Suc calls + n)"
    using Suc.prems lt ms by (intro Suc.IH) auto
  then show ?case using lt t ms by (simp add: think_loop_call)
qed

lemma think_loop_diverges:
  assumes nf: "\<And>s th st u v. \<exists>th' r s' v'.
      think drv s th st u v = Some (Inr (th', r, False), s', v') \<and> max_step s' = max_step s"
    and zero: "max_step self = 0"
  shows "think_loop drv up step frame thread self w calls = None"
proof (cases "think_loop drv up step frame thread self w calls")
  case None
  then show ?thesis .
next
  case (Some y)
  have False
  proof (rule think_loop_rule
      [where I = "\<lambda>step frame thread self w calls. max_step self = 0" and Q = "\<lambda>y. False",
        OF Some zero])
    fix step :: int and frame thread and self :: manager and w :: scopes and calls :: nat
      and thread' r self' w'
    assume "max_step self = 0"
      and "think drv self thread (fst (new_step frame)) up w = Some (Inr (thread', r, False), self', w')"
    then show "max_step self' = 0" using nf[of self thread "fst (new_step frame)" up w] by auto
  next
    fix step :: int and frame thread and self :: manager and w :: scopes and calls :: nat
      and e self' w'
    assume "think drv self thread (fst (new_step frame)) up w = Some (Inl e, self', w')"
    then show False using nf[of self thread "fst (new_step frame)" up w] by auto
  next
    fix step :: int and frame thread and self :: manager and w :: scopes and calls :: nat
      and thread' r self' w'
    assume "think drv self thread (fst (new_step frame)) up w = Some (Inr (thread', r, True), self', w')"
    then show False using nf[of self thread "fst (new_step frame)" up w] by auto
  qed simp
  then show ?thesis ..
qed

subsection \<open>destroy\<close>

text \<open>
  C2: destroy is claimed to be idempotent. The guard of \<^verbatim>\<open>destroy\<close> reads
  \<^verbatim>\<open>_destroyed\<close>, which nothing sets: on the manager that the constructor returns, the
  first call of destroy succeeds and leaves the flag unset, and the second call raises
  \<open>AttributeError\<close> on the deleted \<^verbatim>\<open>_container\<close>.
\<close>

theorem destroy_twice_raises:
  "init_manager 0 None None None [] 10 10 = Inr (mk_root 10 10) \<and>
   (case destroy (mk_root 10 10) no_scope_destroyed of
      (r1, m1, w1) \<Rightarrow>
        r1 = Inr () \<and> destroyed m1 = False \<and>
        destroy m1 w1 = (Inl (AttributeError ''_container''), m1, w1))"
  by (simp add: init_manager_def mk_root_def destroy_def container_destroy_def Let_def)

subsection \<open>The step limit\<close>

lemma get_driver_idle_tab: "get_driver idle_tab m fn = idle_driver"
  by (simp add: get_driver_def idle_tab_def split: option.splits)

lemma get_driver_finish_tab: "get_driver (finish_tab r) m fn = finish_driver r"
  by (simp add: get_driver_def finish_tab_def split: option.splits)

lemma idle_nf:
  "\<exists>th' r s' v'. think idle_driver s th st u v = Some (Inr (th', r, False), s', v') \<and>
     max_step s' = max_step s"
  by (simp add: idle_driver_def)

text \<open>
  C3, as stated, at the maximum 0: a driver that never finishes is not stopped after 0 rounds;
  \<^verbatim>\<open>execute\<close> does not return at all.
\<close>

theorem step_limit_zero_counterexample:
  "execute idle_tab (mk_root 10 0) fn0 None None no_scope_destroyed = None"
proof -
  have "think_loop idle_driver None 0 (from_func fn0) [] (mk_root 10 0) no_scope_destroyed 0 = None"
    by (rule think_loop_diverges[OF idle_nf]) (simp add: mk_root_def)
  moreover have "initialize idle_driver = []" by (simp add: idle_driver_def)
  ultimately show ?thesis
    by (simp add: execute_def get_driver_idle_tab Let_def)
qed

text \<open>
  C3, amended: for every maximum S of at least 1 and every driver whose \<open>think\<close> always
  returns unfinished (and leaves the manager's maximum alone), \<^verbatim>\<open>execute\<close> raises the
  step-limit error after exactly S calls of \<open>think\<close>.
\<close>

theorem step_limit_exact:
  assumes "1 \<le> max_step self"
    and "\<And>s th st u v. \<exists>th' r s' v'.
      think (get_driver C self fn) s th st u v = Some (Inr (th', r, False), s', v') \<and>
      max_step s' = max_step s"
  shows "\<exists>self' fr w'. execute C self fn frame up w =
     Some (Inl (StepLimitExceeded (max_step self)), self', fr, w', nat (max_step self))"
proof -
  obtain self' fr w' where
    "think_loop (get_driver C self fn) up 0
       (case frame of None \<Rightarrow> from_func fn | Some f \<Rightarrow> f)
       (initialize (get_driver C self fn)) self w 0 =
     Some (Inl (StepLimitExceeded (max_step self)), self', fr, w', 0 + nat (max_step self - 0))"
    using think_loop_exhausts[OF assms(2), of 0 self "nat (max_step self - 0)"] assms(1)
    by fastforce
  then show ?thesis by (simp add: execute_def Let_def)
qed

theorem step_limit_exact_witness:
  "\<exists>self' fr w'. execute idle_tab (mk_root 10 3) fn0 None None no_scope_destroyed =
     Some (Inl (StepLimitExceeded 3), self', fr, w', 3)"
  using step_limit_exact[of "mk_root 10 3" idle_tab fn0 None None no_scope_destroyed] idle_nf
  by (simp add: mk_root_def get_driver_idle_tab)

subsection \<open>The check of the result\<close>

lemma finish_think:
  "think (finish_driver r) s th st u v = Some (Inr (th, r, True), s, v)"
  by (simp add: finish_driver_def)

lemma think_loop_finish_driver:
  "max_step self = 0 \<or> step + 1 \<le> max_step self \<Longrightarrow>
   think_loop (finish_driver r) up step frame thread self w calls =
     Some (Inr r, self, snd (new_step frame), w, Suc calls)"
  by (simp add: think_loop_call finish_think)

lemma execute_finish_tab:
  "max_step self = 0 \<or> 1 \<le> max_step self \<Longrightarrow>
   execute (finish_tab r) self fn frame up w =
     Some (if r \<noteq> PyNone \<and> \<not> isinstance_AIFuncResult r
           then Inl (ResultTypeMismatch (type_of r) (aifunc_result_type fn)) else Inr r,
           self, snd (new_step (case frame of None \<Rightarrow> from_func fn | Some f \<Rightarrow> f)), w, 1)"
  by (simp add: execute_def get_driver_finish_tab Let_def think_loop_finish_driver)

text \<open>
  C4, as stated, fails: a result whose class is a result class, but not the one the task
  declares, is returned by \<^verbatim>\<open>execute\<close> and not rejected.
\<close>

theorem result_type_counterexample:
  "type_of (AIFuncResultObj ''OtherResult'' 7) \<noteq> aifunc_result_type fn0 \<and>
   map_option fst (execute (finish_tab (AIFuncResultObj ''OtherResult'' 7)) (mk_root 10 10) fn0
     None None no_scope_destroyed) = Some (Inr (AIFuncResultObj ''OtherResult'' 7))"
  by (simp add: execute_finish_tab mk_root_def fn0_def)

text \<open>
  C4, amended: when the loop ends with a result, \<^verbatim>\<open>execute\<close> returns it if it is
  \<^verbatim>\<open>None\<close> or an instance of the general result class \<^verbatim>\<open>AIFuncResult\<close>, whatever
  result type the task declares; for an object of any other class it raises the mismatch error
  and returns no result.
\<close>

theorem result_type_check:
  assumes "think_loop (get_driver C self fn) up 0
             (case frame of None \<Rightarrow> from_func fn | Some f \<Rightarrow> f)
             (initialize (get_driver C self fn)) self w 0 = Some (Inr r, rest)"
  shows "execute C self fn frame up w =
           (case r of
              PyNone \<Rightarrow> Some (Inr PyNone, rest)
            | AIFuncResultObj c v \<Rightarrow> Some (Inr (AIFuncResultObj c v), rest)
            | OtherObj c v \<Rightarrow> Some (Inl (ResultTypeMismatch c (aifunc_result_type fn)), rest))"
  using assms by (cases r) (simp_all add: execute_def Let_def)

theorem result_type_check_witness:
  "execute (finish_tab (OtherObj ''str'' 1)) (mk_root 10 10) fn0 None None no_scope_destroyed =
     Some (Inl (ResultTypeMismatch ''str'' ''FResult''), mk_root 10 10,
           snd (new_step (from_func fn0)), no_scope_destroyed, 1)"
  using result_type_check[of "finish_tab (OtherObj ''str'' 1)" "mk_root 10 10" fn0 None None
      no_scope_destroyed "OtherObj ''str'' 1"
      "(mk_root 10 10, snd (new_step (from_func fn0)), no_scope_destroyed, 1)"]
  by (simp add: get_driver_finish_tab think_loop_finish_driver mk_root_def fn0_def)

subsection \<open>The scope of a sub manager\<close>

lemma sub_manager_container:
  "sub_manager self st up = Inr child \<Longrightarrow> container child = container self"
  by (auto simp: sub_manager_def init_manager_def split: attr.splits if_splits)

text \<open>
  C1: the sub manager is claimed to own a scope of its own, so that destroying it leaves the
  caller's scope valid. \<^verbatim>\<open>sub_manager\<close> hands the caller's container object to the
  child: for the manager on the container at address 0, the child is on the container at
  address 0 too, destroying the child destroys that container, and after one successful
  \<^verbatim>\<open>run\<close> the caller, itself not destroyed, is left with a destroyed container.
\<close>

theorem sub_manager_shares_scope:
  "(case sub_manager (mk_root 10 10) (fst (new_step (from_func fn0))) None of
      Inl e \<Rightarrow> False
    | Inr child \<Rightarrow>
        container child = Attr 0 \<and> container (mk_root 10 10) = Attr 0 \<and>
        (case destroy child no_scope_destroyed of
           (r, child', w') \<Rightarrow> r = Inr () \<and> \<not> scope_valid w' 0)) \<and>
   (case run (finish_tab (AIFuncResultObj ''FResult'' 1)) (mk_root 10 10) ''k'' fn0
           no_scope_destroyed of
      None \<Rightarrow> False
    | Some res \<Rightarrow>
        r_outcome res = Inr (AIFuncResultObj ''FResult'' 1) \<and>
        container (r_caller res) = Attr 0 \<and> \<not> scope_valid (r_scopes res) 0)"
  by (simp add: run_def run_finally_def execute_finish_tab sub_manager_def init_manager_def
      mk_root_def new_step_def from_func_def fn0_def destroy_def container_destroy_def
      scope_valid_def no_scope_destroyed_def Let_def)

subsection \<open>The sequence numbers of a frame\<close>

lemma numbered_new_step: "numbered fr \<Longrightarrow> numbered (snd (new_step fr))"
  by (simp add: numbered_def new_step_def Let_def)

lemma numbered_from_func: "numbered (from_func fn)"
  by (simp add: numbered_def from_func_def)

lemma length_new_step: "length (steps (snd (new_step fr))) = Suc (length (steps fr))"
  by (simp add: new_step_def Let_def)

lemma numbered_seq_le: "numbered fr \<Longrightarrow> s \<in> set (steps fr) \<Longrightarrow> seq s \<le> length (steps fr)"
proof -
  assume n: "numbered fr" and s: "s \<in> set (steps fr)"
  from s have "seq s \<in> set (map seq (steps fr))" by simp
  with n have "seq s \<in> set [1..<Suc (length (steps fr))]" by (simp add: numbered_def)
  then show ?thesis by (simp del: upt_Suc)
qed

lemma think_loop_steps:
  assumes some: "think_loop drv up step fr0 thread self w calls = Some y"
    and keep: "\<And>s th st u v r s' v'.
      think drv s th st u v = Some (r, s', v') \<Longrightarrow> max_step s' = max_step s"
    and pos: "1 \<le> max_step self" and st: "step \<le> max_step self"
    and num: "numbered fr0"
  shows "numbered (fst (snd (snd y))) \<and>
    int (length (steps (fst (snd (snd y))))) \<le> int (length (steps fr0)) - step + max_step self + 1"
proof (rule think_loop_rule
    [where I = "\<lambda>step' frame thread' self' w' calls'.
         max_step self' = max_step self \<and> step' \<le> max_step self \<and> numbered frame \<and>
         int (length (steps frame)) = int (length (steps fr0)) - step + step'"
       and Q = "\<lambda>y. numbered (fst (snd (snd y))) \<and>
         int (length (steps (fst (snd (snd y))))) \<le> int (length (steps fr0)) - step + max_step self + 1",
      OF some])
  show "max_step self = max_step self \<and> step \<le> max_step self \<and> numbered fr0 \<and>
    int (length (steps fr0)) = int (length (steps fr0)) - step + step"
    using st num by simp
qed (insert pos, auto simp: numbered_new_step length_new_step dest: keep)

lemma execute_steps:
  assumes some: "execute C self fn frame up w = Some (out, self', fr, rest)"
    and keep: "\<And>s th st u v r s' v'.
      think (get_driver C self fn) s th st u v = Some (r, s', v') \<Longrightarrow> max_step s' = max_step s"
    and pos: "1 \<le> max_step self"
    and num: "numbered fr0" and fr0: "fr0 = (case frame of None \<Rightarrow> from_func fn | Some f \<Rightarrow> f)"
  shows "numbered fr \<and> int (length (steps fr)) \<le> int (length (steps fr0)) + max_step self + 1"
proof -
  obtain o' where l: "think_loop (get_driver C self fn) up 0 fr0
      (initialize (get_driver C self fn)) self w 0 = Some (o', self', fr, rest)"
    using some unfolding execute_def Let_def fr0
    by (auto split: option.splits sum.splits if_splits)
  from think_loop_steps[OF l keep pos _ num] pos show ?thesis by simp
qed


lemma sub_manager_Inr:
  assumes "sub_manager self st up = Inr child"
  shows "container child = container self" "max_step child = 10"
    "max_depth child = max_depth self" "default_driver_type child = default_driver_type self"
    "exec_step child = Attr (Some st)" "upstream child = Attr up"
    "values_dict child = Attr Map.empty" "destroyed child = False"
    "step_depth st \<le> max_depth self"
  using assms
  by (auto simp: sub_manager_def init_manager_def split: attr.splits if_splits)

lemma get_driver_sub_manager:
  "sub_manager self st up = Inr child \<Longrightarrow> get_driver C child fn = get_driver C self fn"
  using sub_manager_Inr(4)[of self st up child]
  by (simp add: get_driver_def split: option.splits)

lemma run_finally_simps:
  "r_frame (run_finally tried self sub_m fr w) = Some fr"
  "r_caller (run_finally tried self sub_m fr w) = self"
  by (simp_all add: run_finally_def split: prod.splits sum.splits)

lemma run_steps:
  assumes some: "run C self k fn w = Some res" and fr: "r_frame res = Some fr"
    and keep: "\<And>s th st u v r s' v'.
      think (get_driver C self fn) s th st u v = Some (r, s', v') \<Longrightarrow> max_step s' = max_step s"
  shows "numbered fr \<and> length (steps fr) \<le> 12"
proof (cases "exec_step self")
  case Deleted
  with some fr show ?thesis by (auto simp: run_def)
next
  case (Attr so)
  define frame0 where "frame0 = (case so of Some s \<Rightarrow> new_frame s fn | None \<Rightarrow> from_func fn)"
  have n0: "numbered frame0" and l0: "length (steps frame0) = 0"
    by (auto simp: frame0_def numbered_def new_frame_def from_func_def split: option.splits)
  define frame1 where "frame1 = snd (new_step frame0)"
  have n1: "numbered frame1" and l1: "length (steps frame1) = 1"
    using n0 l0 by (simp_all add: frame1_def numbered_new_step length_new_step)
  show ?thesis
  proof (cases "sub_manager self (fst (new_step frame0)) None")
    case (Inl e)
    with some fr Attr n1 l1 show ?thesis
      by (auto simp: run_def Let_def frame0_def frame1_def)
  next
    case (Inr sub_m)
    note sm = sub_manager_Inr[OF Inr] get_driver_sub_manager[OF Inr]
    show ?thesis
    proof (cases "upstream self")
      case Deleted
      with some fr Attr Inr n1 l1 show ?thesis
        by (auto simp: run_def Let_def frame0_def frame1_def run_finally_simps)
    next
      case up: (Attr up)
      from some Attr Inr up obtain out sub_m' fr' w' n where
        ex: "execute C sub_m fn (Some frame1) up w = Some (out, sub_m', fr', w', n)"
        by (auto simp: run_def Let_def frame0_def frame1_def split: option.splits)
      with some fr Attr Inr up have "fr = fr'"
        by (auto simp: run_def Let_def frame0_def frame1_def run_finally_simps
            split: sum.splits attr.splits)
      moreover have "numbered fr' \<and>
        int (length (steps fr')) \<le> int (length (steps frame1)) + max_step sub_m + 1"
        by (rule execute_steps[OF ex _ _ n1]) (auto simp: sm dest: keep)
      ultimately show ?thesis using l1 sm(2) by simp
    qed
  qed
qed

text \<open>
  C8, as stated, fails: with the maximum 1 and a driver that never finishes, \<^verbatim>\<open>execute\<close>
  creates the steps 1 and 2 of a root frame before it raises; the step of a round is created
  before the limit is checked.
\<close>

theorem steps_bound_counterexample:
  "map_option (\<lambda>(out, self', fr, rest). (out, max_step self', map seq (steps fr)))
     (execute idle_tab (mk_root 10 1) fn0 None None no_scope_destroyed) =
   Some (Inl (StepLimitExceeded 1), 1, [1, 2])"
proof -
  have t: "think idle_driver s th st u v = Some (Inr (th, PyNone, False), s, v)" for s th st u v
    by (simp add: idle_driver_def)
  have m: "max_step (mk_root 10 1) = 1" by (simp add: mk_root_def)
  show ?thesis
    by (simp add: execute_def get_driver_idle_tab Let_def think_loop_call think_loop_limit t m
        new_step_def from_func_def)
qed

text \<open>
  C8, amended: when a manager with a maximum S of at least 1 executes a task on a frame that
  holds k steps (none for a root frame), every step of that frame afterwards has a sequence
  number of at most k + S + 1; and every step of the frame that \<^verbatim>\<open>run\<close> creates has a
  sequence number of at most 12, for \<^verbatim>\<open>run\<close> creates one step itself and its sub manager
  has the maximum 10. The driver is assumed to leave the maximum of the manager alone.
\<close>

theorem steps_bound:
  assumes keep: "\<And>s th st u v r s' v'.
      think (get_driver C self fn) s th st u v = Some (r, s', v') \<Longrightarrow> max_step s' = max_step s"
    and pos: "1 \<le> max_step self"
    and num: "case frame of None \<Rightarrow> True | Some f \<Rightarrow> numbered f"
    and some: "execute C self fn frame up w = Some (out, self', fr, rest)"
    and s: "s \<in> set (steps fr)"
  shows "seq s \<le> (case frame of None \<Rightarrow> 0 | Some f \<Rightarrow> length (steps f)) + nat (max_step self) + 1 \<and>
    (\<forall>k res fr' s'. run C self k fn w = Some res \<longrightarrow> r_frame res = Some fr' \<longrightarrow>
       s' \<in> set (steps fr') \<longrightarrow> seq s' \<le> 12)"
proof
  define fr0 where "fr0 = (case frame of None \<Rightarrow> from_func fn | Some f \<Rightarrow> f)"
  have n0: "numbered fr0" using num by (auto simp: fr0_def numbered_from_func split: option.splits)
  have l0: "length (steps fr0) = (case frame of None \<Rightarrow> 0 | Some f \<Rightarrow> length (steps f))"
    by (simp add: fr0_def from_func_def split: option.splits)
  from execute_steps[OF some keep pos n0 fr0_def]
  have "numbered fr" and "int (length (steps fr)) \<le> int (length (steps fr0)) + max_step self + 1"
    by simp_all
  with numbered_seq_le[OF \<open>numbered fr\<close> s] l0 pos
  show "seq s \<le> (case frame of None \<Rightarrow> 0 | Some f \<Rightarrow> length (steps f)) + nat (max_step self) + 1"
    by simp
next
  show "\<forall>k res fr' s'. run C self k fn w = Some res \<longrightarrow> r_frame res = Some fr' \<longrightarrow>
       s' \<in> set (steps fr') \<longrightarrow> seq s' \<le> 12"
  proof (intro allI impI)
    fix k res fr' s'
    assume "run C self k fn w = Some res" and "r_frame res = Some fr'"
      and "s' \<in> set (steps fr')"
    then have r: "run C self k fn w = Some res" and f: "r_frame res = Some fr'"
      and m: "s' \<in> set (steps fr')" by simp_all
    have "numbered fr' \<and> length (steps fr') \<le> 12"
      by (rule run_steps[OF r f]) (rule keep)
    with numbered_seq_le[of fr' s'] m show "seq s' \<le> 12" by simp
  qed
qed

theorem steps_bound_witness:
  "seq (fst (new_step (from_func fn0))) \<le> 11 \<and>
   execute (finish_tab PyNone) (mk_root 10 10) fn0 None None no_scope_destroyed =
     Some (Inr PyNone, mk_root 10 10, snd (new_step (from_func fn0)), no_scope_destroyed, 1)"
proof -
  have k: "think (get_driver (finish_tab PyNone) (mk_root 10 10) fn0) s th st u v = Some (r, s', v')
    \<Longrightarrow> max_step s' = max_step s" for s th st u v r s' v'
    by (simp add: get_driver_finish_tab finish_think)
  have e: "execute (finish_tab PyNone) (mk_root 10 10) fn0 None None no_scope_destroyed =
     Some (Inr PyNone, mk_root 10 10, snd (new_step (from_func fn0)), no_scope_destroyed, 1)"
    by (simp add: execute_finish_tab mk_root_def)
  have m: "fst (new_step (from_func fn0)) \<in> set (steps (snd (new_step (from_func fn0))))"
    by (simp add: new_step_def Let_def)
  from steps_bound[OF k _ _ e m] e show ?thesis by (simp add: mk_root_def)
qed

subsection \<open>The maximum 0\<close>

lemma think_loop_error_origin:
  assumes some: "think_loop drv up step fr0 thread self w calls = Some (Inl e, rest)"
    and keep: "\<And>s th st u v r s' v'.
      think drv s th st u v = Some (r, s', v') \<Longrightarrow> max_step s' = max_step s"
    and zero: "max_step self = 0"
  shows "\<exists>s th st u v s' v'. think drv s th st u v = Some (Inl e, s', v')"
proof -
  have "fst (Inl e :: error + pyobj, rest) = Inl e \<longrightarrow>
    (\<exists>s th st u v s' v'. think drv s th st u v = Some (Inl e, s', v'))"
  proof (rule think_loop_rule
      [where I = "\<lambda>step frame thread self w calls. max_step self = 0"
         and Q = "\<lambda>y. fst y = Inl e \<longrightarrow>
           (\<exists>s th st u v s' v'. think drv s th st u v = Some (Inl e, s', v'))",
        OF some zero])
    fix frame thread and self :: manager and w :: scopes and calls :: nat and e' self' w'
    assume "think drv self thread (fst (new_step frame)) up w = Some (Inl e', self', w')"
    then show "fst (Inl e' :: error + pyobj, self', snd (new_step frame), w', Suc calls) = Inl e \<longrightarrow>
      (\<exists>s th st u v s' v'. think drv s th st u v = Some (Inl e, s', v'))"
      by clarsimp blast
  next
    fix frame thread and self :: manager and w :: scopes and thread' r self' w'
    assume "max_step self = 0"
      and "think drv self thread (fst (new_step frame)) up w = Some (Inr (thread', r, False), self', w')"
    then show "max_step self' = 0" using keep by fastforce
  qed simp_all
  then show ?thesis by simp
qed

text \<open>
  C10: with the maximum 0 \<^verbatim>\<open>execute\<close> checks no limit. Whatever the driver and the task,
  an exception that comes out of \<^verbatim>\<open>execute\<close> is the mismatch error of the result check or
  was raised by a call of \<open>think\<close> (so the step-limit error of this \<^verbatim>\<open>execute\<close> never
  is); and with a driver whose \<open>think\<close> always returns unfinished, \<^verbatim>\<open>execute\<close> does not
  return. The driver is assumed to leave the maximum of the manager alone.
\<close>

theorem no_step_limit_at_zero:
  assumes zero: "max_step self = 0"
    and keep: "\<And>s th st u v r s' v'.
      think (get_driver C self fn) s th st u v = Some (r, s', v') \<Longrightarrow> max_step s' = max_step s"
  shows "(\<forall>e rest. execute C self fn frame up w = Some (Inl e, rest) \<longrightarrow>
            (\<exists>a b. e = ResultTypeMismatch a b) \<or>
            (\<exists>s th st u v s' v'. think (get_driver C self fn) s th st u v = Some (Inl e, s', v'))) \<and>
         ((\<forall>s th st u v. \<exists>th' r s' v'.
              think (get_driver C self fn) s th st u v = Some (Inr (th', r, False), s', v')) \<longrightarrow>
          execute C self fn frame up w = None)"
proof (intro conjI allI impI)
  fix e rest
  assume ex: "execute C self fn frame up w = Some (Inl e, rest)"
  let ?loop = "think_loop (get_driver C self fn) up 0
      (case frame of None \<Rightarrow> from_func fn | Some f \<Rightarrow> f)
      (initialize (get_driver C self fn)) self w 0"
  from ex obtain o' where l: "?loop = Some (o', rest)"
    by (auto simp: execute_def Let_def split: option.splits sum.splits if_splits)
  show "(\<exists>a b. e = ResultTypeMismatch a b) \<or>
        (\<exists>s th st u v s' v'. think (get_driver C self fn) s th st u v = Some (Inl e, s', v'))"
  proof (cases o')
    case (Inl e')
    with ex l have "e' = e" by (simp add: execute_def Let_def)
    with l Inl have "think_loop (get_driver C self fn) up 0
      (case frame of None \<Rightarrow> from_func fn | Some f \<Rightarrow> f)
      (initialize (get_driver C self fn)) self w 0 = Some (Inl e, rest)" by simp
    then have "\<exists>s th st u v s' v'.
        think (get_driver C self fn) s th st u v = Some (Inl e, s', v')"
      by (rule think_loop_error_origin) (rule keep, assumption, rule zero)
    then show ?thesis by blast
  next
    case (Inr r)
    with ex l show ?thesis by (auto simp: execute_def Let_def split: if_splits)
  qed
next
  assume nf: "\<forall>s th st u v. \<exists>th' r s' v'.
      think (get_driver C self fn) s th st u v = Some (Inr (th', r, False), s', v')"
  have "think_loop (get_driver C self fn) up 0
      (case frame of None \<Rightarrow> from_func fn | Some f \<Rightarrow> f)
      (initialize (get_driver C self fn)) self w 0 = None"
  proof (rule think_loop_diverges[where self = self, OF _ zero])
    fix s th st u v
    from nf obtain th' r s' v' where
      t: "think (get_driver C self fn) s th st u v = Some (Inr (th', r, False), s', v')" by blast
    with keep[OF t] show "\<exists>th' r s' v'.
      think (get_driver C self fn) s th st u v = Some (Inr (th', r, False), s', v') \<and>
      max_step s' = max_step s" by blast
  qed
  then show "execute C self fn frame up w = None" by (simp add: execute_def Let_def)
qed

theorem no_step_limit_at_zero_witness:
  "execute idle_tab (mk_root 3 0) fn0 (Some (from_func fn0)) None no_scope_destroyed = None"
proof -
  have z: "max_step (mk_root 3 0) = 0" by (simp add: mk_root_def)
  have k: "think (get_driver idle_tab (mk_root 3 0) fn0) s th st u v = Some (r, s', v')
    \<Longrightarrow> max_step s' = max_step s" for s th st u v r s' v'
    by (auto simp: get_driver_idle_tab idle_driver_def)
  have nf: "\<forall>s th st u v. \<exists>th' r s' v'.
      think (get_driver idle_tab (mk_root 3 0) fn0) s th st u v = Some (Inr (th', r, False), s', v')"
    by (simp add: get_driver_idle_tab idle_driver_def)
  have "(\<forall>s th st u v. \<exists>th' r s' v'.
      think (get_driver idle_tab (mk_root 3 0) fn0) s th st u v = Some (Inr (th', r, False), s', v'))
    \<longrightarrow> execute idle_tab (mk_root 3 0) fn0 (Some (from_func fn0)) None no_scope_destroyed = None"
    by (rule no_step_limit_at_zero[where frame = "Some (from_func fn0)" and up = None
          and w = no_scope_destroyed, THEN conjunct2]) (rule z, rule k)
  with nf show ?thesis by blast
qed

subsection \<open>run\<close>

lemma frame_depth_new_step: "frame_depth (snd (new_step fr)) = frame_depth fr"
  by (simp add: new_step_def Let_def)

lemma step_depth_new_step: "step_depth (fst (new_step fr)) = frame_depth fr"
  by (simp add: new_step_def Let_def)



lemma sub_manager_ok:
  assumes "container self = Attr con" and "step_depth st \<le> max_depth self"
  shows "sub_manager self st up =
    Inr \<lparr>container = Attr con, exec_step = Attr (Some st), upstream = Attr up,
         llm_api_name = llm_api_name self, values_dict = Attr Map.empty,
         max_depth = max_depth self, max_step = 10,
         default_driver_type = default_driver_type self, destroyed = False\<rparr>"
  using assms by (simp add: sub_manager_def init_manager_def)

lemma sub_manager_too_deep:
  assumes "container self = Attr con" and "step_depth st > max_depth self"
  shows "sub_manager self st up = Inl (RecursionLimitExceeded (step_depth st) (max_depth self))"
  using assms by (simp add: sub_manager_def init_manager_def)




subsection \<open>parallel_run\<close>






lemma destroy_live:
  assumes "destroyed m = False" "container m = Attr con" "values_dict m = Attr vs"
    "exec_step m = Attr so" "upstream m = Attr up"
  shows "destroy m w =
    (Inr (), m\<lparr>container := Deleted, values_dict := Deleted, exec_step := Deleted,
               upstream := Deleted\<rparr>, container_destroy con w)"
  using assms by (simp add: destroy_def Let_def)

lemma run_eval:
  assumes live: "exec_step self = Attr so" "container self = Attr con"
      "upstream self = Attr up" "values_dict self = Attr vs"
    and f0: "frame0 = (case so of Some s \<Rightarrow> new_frame s fn | None \<Rightarrow> from_func fn)"
    and sm: "sub_manager self (fst (new_step frame0)) None = Inr sub0"
    and ex: "execute C sub0 fn (Some (snd (new_step frame0))) up w = Some (out, sub0, fr, w', n)"
  shows "\<exists>sub2. run C self k fn w =
    Some \<lparr>r_outcome = out,
          r_caller = (case out of Inl e \<Rightarrow> self
                      | Inr v \<Rightarrow> self\<lparr>values_dict := Attr (vs(k \<mapsto> v))\<rparr>),
          r_sub = Some sub2, r_frame = Some fr, r_scopes = container_destroy con w'\<rparr>"
proof -
  note s0 = sub_manager_Inr[OF sm]
  have d: "destroy sub0 w' =
    (Inr (), sub0\<lparr>container := Deleted, values_dict := Deleted, exec_step := Deleted,
               upstream := Deleted\<rparr>, container_destroy con w')"
    by (rule destroy_live) (simp_all add: s0 live)
  show ?thesis
    using live sm ex d unfolding f0
    by (cases out) (simp_all add: run_def Let_def run_finally_def)
qed




lemma execute_finish:
  "max_step self = 0 \<or> 1 \<le> max_step self \<Longrightarrow> get_driver C self fn = finish_driver r \<Longrightarrow>
   r = PyNone \<or> isinstance_AIFuncResult r \<Longrightarrow>
   execute C self fn frame up w =
     Some (Inr r, self, snd (new_step (case frame of None \<Rightarrow> from_func fn | Some f \<Rightarrow> f)), w, 1)"
  by (auto simp add: execute_def Let_def think_loop_finish_driver)




subsection \<open>The recursion limit\<close>

lemma execute_one_round:
  assumes ms: "max_step self = 0 \<or> 1 \<le> max_step self"
    and fr: "fr0 = (case frame of None \<Rightarrow> from_func fn | Some f \<Rightarrow> f)"
    and t: "think (get_driver C self fn) self (initialize (get_driver C self fn))
              (fst (new_step fr0)) up w = Some (x, self', w')"
    and x: "x = Inl e \<and> y = Inl e \<or>
            (\<exists>th. x = Inr (th, v, True)) \<and> (v = PyNone \<or> isinstance_AIFuncResult v) \<and> y = Inr v"
  shows "execute C self fn frame up w = Some (y, self', snd (new_step fr0), w', 1)"
  using ms t x unfolding fr
  by (auto simp: execute_def Let_def think_loop_call)

lemma get_driver_nested_0: "get_driver (nested_tab 0 r) self fn = finish_driver r"
  by (simp add: get_driver_def split: option.splits)

lemma get_driver_nested_Suc:
  "get_driver (nested_tab (Suc n) r) self fn =
     \<lparr>initialize = [],
      think = (\<lambda>self thread step up w.
        case sub_manager_fn self step up of
          Inl e \<Rightarrow> Some (Inl e, self, w)
        | Inr ctx \<Rightarrow>
            (case run (nested_tab n r) ctx ''nested'' fn w of
               None \<Rightarrow> None
             | Some res \<Rightarrow>
                 (case r_outcome res of
                    Inl e \<Rightarrow> Some (Inl e, self, r_scopes res)
                  | Inr v \<Rightarrow> Some (Inr (thread, v, True), self, r_scopes res))))\<rparr>"
  by (simp add: get_driver_def split: option.splits)

lemma nested_execute:
  assumes r: "r = PyNone \<or> isinstance_AIFuncResult r"
  shows "container m = Attr con \<Longrightarrow> max_depth m = D \<Longrightarrow> max_step m = 0 \<or> 1 \<le> max_step m \<Longrightarrow>
    frame_depth fr = d \<Longrightarrow> d \<le> D \<Longrightarrow>
    \<exists>w'. execute (nested_tab N r) m fn (Some fr) up w =
      Some (if d + int N \<le> D then Inr r else Inl (RecursionLimitExceeded (D + 1) D),
            m, snd (new_step fr), w', 1)"
proof (induction N arbitrary: m con fr d up w)
  case 0
  have "execute (nested_tab 0 r) m fn (Some fr) up w = Some (Inr r, m, snd (new_step fr), w, 1)"
    using execute_finish[OF "0.prems"(3) _ r, of "nested_tab 0 r" fn "Some fr" up w]
    by (simp add: get_driver_nested_0 del: nested_tab.simps)
  then show ?case using "0.prems"(5) by (auto simp del: nested_tab.simps)
next
  case (Suc N)
  let ?C = "nested_tab N r"
  let ?step = "fst (new_step fr)"
  have sd: "step_depth ?step \<le> max_depth m" using Suc.prems by (simp add: step_depth_new_step)
  from sub_manager_ok[OF Suc.prems(1) sd, of up] obtain ctx where
    ctx: "sub_manager m ?step up = Inr ctx" by blast
  note c = sub_manager_Inr[OF ctx]
  let ?frame0 = "new_frame ?step fn"
  have fd0: "frame_depth ?frame0 = d + 1"
    using Suc.prems by (simp add: new_frame_def step_depth_new_step)
  let ?sub_step = "fst (new_step ?frame0)"
  have sd1: "step_depth ?sub_step = d + 1" using fd0 by (simp add: step_depth_new_step)
  have "\<exists>res. run ?C ctx ''nested'' fn w = Some res \<and>
      r_outcome res = (if d + int (Suc N) \<le> D then Inr r else Inl (RecursionLimitExceeded (D + 1) D))"
  proof (cases "d + 1 \<le> D")
    case False
    with Suc.prems have dD: "d = D" by simp
    have "sub_manager ctx ?sub_step None = Inl (RecursionLimitExceeded (D + 1) D)"
      using sub_manager_too_deep[of ctx con ?sub_step None] c Suc.prems sd1 dD by simp
    then show ?thesis using c dD by (simp add: run_def Let_def del: nested_tab.simps)
  next
    case True
    have cc: "container ctx = Attr con" using c Suc.prems by simp
    have "step_depth ?sub_step \<le> max_depth ctx" using True sd1 c Suc.prems by simp
    from sub_manager_ok[OF cc this, of None] obtain sub0 where
      sm: "sub_manager ctx ?sub_step None = Inr sub0" by blast
    note s = sub_manager_Inr[OF sm]
    have "\<exists>w'. execute ?C sub0 fn (Some (snd (new_step ?frame0))) up w =
      Some (if (d + 1) + int N \<le> D then Inr r else Inl (RecursionLimitExceeded (D + 1) D),
            sub0, snd (new_step (snd (new_step ?frame0))), w', 1)"
      by (rule Suc.IH[where con = con])
        (use s c cc Suc.prems True fd0 in \<open>simp_all add: frame_depth_new_step del: nested_tab.simps\<close>)
    then obtain w' where ex: "execute ?C sub0 fn (Some (snd (new_step ?frame0))) up w =
      Some (if (d + 1) + int N \<le> D then Inr r else Inl (RecursionLimitExceeded (D + 1) D),
            sub0, snd (new_step (snd (new_step ?frame0))), w', 1)" by blast
    have f0: "?frame0 = (case Some ?step of Some s \<Rightarrow> new_frame s fn | None \<Rightarrow> from_func fn)"
      by simp
    from run_eval[OF c(5) cc c(6) c(7) f0 sm ex, of "''nested''"]
    show ?thesis by (auto simp: add.commute add.left_commute simp del: nested_tab.simps)
  qed
  then obtain res where res: "run ?C ctx ''nested'' fn w = Some res"
    "r_outcome res = (if d + int (Suc N) \<le> D then Inr r else Inl (RecursionLimitExceeded (D + 1) D))"
    by blast
  note gd = get_driver_nested_Suc
  show ?case
  proof (cases "d + int (Suc N) \<le> D")
    case True
    have "execute (nested_tab (Suc N) r) m fn (Some fr) up w =
      Some (Inr r, m, snd (new_step fr), r_scopes res, 1)"
      by (rule execute_one_round[where x = "Inr ([], r, True)" and v = r and e = undefined])
        (use Suc.prems True res ctx r in \<open>simp_all add: gd sub_manager_fn_def del: nested_tab.simps\<close>)
    with True show ?thesis by (auto simp del: nested_tab.simps)
  next
    case False
    have "execute (nested_tab (Suc N) r) m fn (Some fr) up w =
      Some (Inl (RecursionLimitExceeded (D + 1) D), m, snd (new_step fr), r_scopes res, 1)"
      by (rule execute_one_round[where x = "Inl (RecursionLimitExceeded (D + 1) D)"
            and e = "RecursionLimitExceeded (D + 1) D" and v = undefined])
        (use Suc.prems False res ctx in \<open>simp_all add: gd sub_manager_fn_def del: nested_tab.simps\<close>)
    with False show ?thesis by (auto simp del: nested_tab.simps)
  qed
qed


lemma get_driver_direct_0: "get_driver (direct_tab 0 r) self fn = finish_driver r"
  by (simp add: get_driver_def split: option.splits)

lemma get_driver_direct_Suc:
  "get_driver (direct_tab (Suc n) r) self fn =
     \<lparr>initialize = [],
      think = (\<lambda>self thread step up w.
        case run (direct_tab n r) self ''nested'' fn w of
          None \<Rightarrow> None
        | Some res \<Rightarrow>
            (case r_outcome res of
               Inl e \<Rightarrow> Some (Inl e, r_caller res, r_scopes res)
             | Inr v \<Rightarrow> Some (Inr (thread, v, True), r_caller res, r_scopes res)))\<rparr>"
  by (simp add: get_driver_def split: option.splits)

text \<open>
  C5, as stated, fails for a task that calls \<^verbatim>\<open>run\<close> on the manager it is handed: a
  manager without step gives the launched task a root frame, of depth 0 again. With the maximum
  depth 0, launch 1 then succeeds, although it is launch D + 1.
\<close>

theorem recursion_limit_counterexample:
  "max_depth (mk_root 0 10) = 0 \<and>
   map_option fst (execute (direct_tab 1 (AIFuncResultObj ''FResult'' 1)) (mk_root 0 10) fn0
      None None no_scope_destroyed) = Some (Inr (AIFuncResultObj ''FResult'' 1))"
proof -
  let ?R = "AIFuncResultObj ''FResult'' 1"
  let ?m = "mk_root 0 10"
  have live: "exec_step ?m = Attr None" "container ?m = Attr 0" "upstream ?m = Attr None"
    "values_dict ?m = Attr Map.empty" and md: "max_depth ?m = 0"
    and ms: "max_step ?m = 0 \<or> 1 \<le> max_step ?m"
    by (simp_all add: mk_root_def)
  have sd: "step_depth (fst (new_step (from_func fn0))) \<le> max_depth ?m"
    by (simp add: step_depth_new_step from_func_def md)
  from sub_manager_ok[OF live(2) sd, of None] obtain sub0 where
    sm: "sub_manager ?m (fst (new_step (from_func fn0))) None = Inr sub0" by blast
  have ms0: "max_step sub0 = 0 \<or> 1 \<le> max_step sub0" using sub_manager_Inr(2)[OF sm] by simp
  have ex: "execute (direct_tab 0 ?R) sub0 fn0 (Some (snd (new_step (from_func fn0)))) None
      no_scope_destroyed =
    Some (Inr ?R, sub0, snd (new_step (snd (new_step (from_func fn0)))), no_scope_destroyed, 1)"
    using execute_finish[OF ms0, of "direct_tab 0 ?R" fn0 ?R] 
    by (simp add: get_driver_direct_0 del: direct_tab.simps)
  have f0: "from_func fn0 = (case None of Some s \<Rightarrow> new_frame s fn0 | None \<Rightarrow> from_func fn0)"
    by simp
  from run_eval[OF live f0 sm ex, of "''nested''"] obtain res where
    res: "run (direct_tab 0 ?R) ?m ''nested'' fn0 no_scope_destroyed = Some res"
    "r_outcome res = Inr ?R" by (auto simp del: direct_tab.simps)
  have "execute (direct_tab (Suc 0) ?R) ?m fn0 None None no_scope_destroyed =
      Some (Inr ?R, r_caller res, snd (new_step (from_func fn0)), r_scopes res, 1)"
    by (rule execute_one_round[where x = "Inr ([], ?R, True)" and v = ?R and e = undefined])
      (use ms res in \<open>simp_all add: get_driver_direct_Suc del: direct_tab.simps\<close>)
  then show ?thesis using md by (simp del: direct_tab.simps)
qed

text \<open>
  C5, amended: a manager with a maximum depth D of at least 0 executes a task that launches
  itself N times, one launch inside the other, each through \<^verbatim>\<open>run\<close> on the context of its
  step (the sub manager that \<^verbatim>\<open>compiler\<close> registers for the step). The frame of the n-th
  launch has depth n. With N at most D the execution returns the result; with more, it raises
  the recursion-limit error for the depth D + 1, the depth of the frame of launch D + 1.
\<close>

theorem recursion_limit:
  assumes "0 \<le> D" and "max_depth self = D" and "container self = Attr con"
    and "max_step self = 0 \<or> 1 \<le> max_step self"
    and "r = PyNone \<or> isinstance_AIFuncResult r"
  shows "map_option fst (execute (nested_tab N r) self fn None up w) =
    Some (if int N \<le> D then Inr r else Inl (RecursionLimitExceeded (D + 1) D))"
proof -
  have e: "execute (nested_tab N r) self fn None up w =
    execute (nested_tab N r) self fn (Some (from_func fn)) up w"
    by (simp add: execute_def del: nested_tab.simps)
  have "frame_depth (from_func fn) = 0" by (simp add: from_func_def)
  from nested_execute[OF assms(5) assms(3) assms(2) assms(4) this assms(1), of N fn up w]
  show ?thesis unfolding e by (auto simp del: nested_tab.simps)
qed

theorem recursion_limit_witness:
  "map_option fst (execute (nested_tab 2 (AIFuncResultObj ''FResult'' 1)) (mk_root 2 10) fn0
      None None no_scope_destroyed) = Some (Inr (AIFuncResultObj ''FResult'' 1)) \<and>
   map_option fst (execute (nested_tab 3 (AIFuncResultObj ''FResult'' 1)) (mk_root 2 10) fn0
      None None no_scope_destroyed) = Some (Inl (RecursionLimitExceeded 3 2))"
proof -
  have p: "(0::int) \<le> 2" "max_depth (mk_root 2 10) = 2" "container (mk_root 2 10) = Attr 0"
    "max_step (mk_root 2 10) = 0 \<or> 1 \<le> max_step (mk_root 2 10)"
    "AIFuncResultObj ''FResult'' 1 = PyNone \<or> isinstance_AIFuncResult (AIFuncResultObj ''FResult'' 1)"
    by (simp_all add: mk_root_def)
  from recursion_limit[OF p, of 2 fn0 None no_scope_destroyed]
    recursion_limit[OF p, of 3 fn0 None no_scope_destroyed]
  show ?thesis by (simp del: nested_tab.simps)
qed

end
